theory Spec2Isabelle
  imports Complex_Main "HOL-Library.Log_Nat"
begin

section \<open>The TTL-LRU cache of \<^verbatim>\<open>cache.py\<close>\<close>

text \<open>
  Clock readings (\<^verbatim>\<open>time.time()\<close>) and durations are modelled as real numbers; every
  operation that reads the clock takes the reading as an argument \<open>now\<close>. Keys are Python
  strings, modelled as \<^typ>\<open>string\<close> with one list element per character. Exceptions are values
  of the type \<open>error\<close>.
\<close>

datatype error = RuntimeError | TimeoutError | ZeroDivisionError | OverflowError

record 'v CacheEntry =
  entry_value :: 'v
  created_at :: real
  ttl :: real
  hits :: int

definition is_expired :: "'v CacheEntry \<Rightarrow> real \<Rightarrow> bool" where
  "is_expired e now = (now - created_at e > ttl e)"

definition touch :: "'v CacheEntry \<Rightarrow> 'v CacheEntry" where
  "touch e = e\<lparr>hits := hits e + 1\<rparr>"

text \<open>
  An \<^verbatim>\<open>OrderedDict\<close> is an association list in iteration order: the head is the oldest
  (least recently used) item. \<^verbatim>\<open>d[k] = v\<close> replaces the value of a present key where it
  stands and appends a new key at the end; \<^verbatim>\<open>del d[k]\<close> and \<^verbatim>\<open>move_to_end\<close> are only
  ever called by the source on a key that is present, so their \<^verbatim>\<open>KeyError\<close> is unreachable.
\<close>

type_synonym 'a ordered_dict = "(string \<times> 'a) list"

primrec od_setitem :: "string \<Rightarrow> 'a \<Rightarrow> 'a ordered_dict \<Rightarrow> 'a ordered_dict" where
  "od_setitem k v [] = [(k, v)]"
| "od_setitem k v (p # ps) = (if fst p = k then (k, v) # ps else p # od_setitem k v ps)"

definition od_delitem :: "string \<Rightarrow> 'a ordered_dict \<Rightarrow> 'a ordered_dict" where
  "od_delitem k d = filter (\<lambda>p. fst p \<noteq> k) d"

definition od_move_to_end :: "string \<Rightarrow> 'a ordered_dict \<Rightarrow> 'a ordered_dict" where
  "od_move_to_end k d = (case map_of d k of None \<Rightarrow> d | Some v \<Rightarrow> od_delitem k d @ [(k, v)])"

record 'v LRUCache =
  max_size :: int
  default_ttl :: real
  name :: string
  lru_cache :: "'v CacheEntry ordered_dict"
  lru_hits :: int
  lru_misses :: int

definition LRUCache_init :: "int \<Rightarrow> real \<Rightarrow> string \<Rightarrow> 'v LRUCache" where
  "LRUCache_init m d n =
     \<lparr>max_size = m, default_ttl = d, name = n, lru_cache = [], lru_hits = 0, lru_misses = 0\<rparr>"

definition LRUCache_get :: "'v LRUCache \<Rightarrow> string \<Rightarrow> real \<Rightarrow> 'v option \<times> 'v LRUCache" where
  "LRUCache_get c key now =
     (case map_of (lru_cache c) key of
        None \<Rightarrow> (None, c\<lparr>lru_misses := lru_misses c + 1\<rparr>)
      | Some entry \<Rightarrow>
          if is_expired entry now
          then (None, c\<lparr>lru_cache := od_delitem key (lru_cache c),
                         lru_misses := lru_misses c + 1\<rparr>)
          else (Some (entry_value entry),
                c\<lparr>lru_cache := od_setitem key (touch entry) (od_move_to_end key (lru_cache c)),
                  lru_hits := lru_hits c + 1\<rparr>))"

text \<open>
  The eviction loop of \<^verbatim>\<open>set\<close>: while \<^verbatim>\<open>len(self._cache) >= self.max_size\<close> the first key
  of the iteration order is deleted. On an empty dictionary \<^verbatim>\<open>next(iter(...))\<close> raises
  \<^verbatim>\<open>StopIteration\<close>, which a coroutine turns into a \<^verbatim>\<open>RuntimeError\<close>: the result is
  \<open>None\<close> then (the dictionary has been emptied by that point).
\<close>

primrec evict_oldest :: "int \<Rightarrow> 'a ordered_dict \<Rightarrow> 'a ordered_dict option" where
  "evict_oldest m [] = (if 0 \<ge> m then None else Some [])"
| "evict_oldest m (p # ps) =
     (if int (length (p # ps)) \<ge> m then evict_oldest m ps else Some (p # ps))"

text \<open>
  \<^verbatim>\<open>ttl or self.default_ttl\<close>: Python's \<^verbatim>\<open>or\<close> yields the right operand when the left one
  is falsy, which for \<^verbatim>\<open>Optional[float]\<close> is \<^verbatim>\<open>None\<close> and zero.
\<close>

definition ttl_or_default :: "real option \<Rightarrow> real \<Rightarrow> real" where
  "ttl_or_default t d = (case t of None \<Rightarrow> d | Some x \<Rightarrow> if x = 0 then d else x)"

definition LRUCache_set ::
  "'v LRUCache \<Rightarrow> string \<Rightarrow> 'v \<Rightarrow> real option \<Rightarrow> real \<Rightarrow> (error \<times> 'v LRUCache) + 'v LRUCache" where
  "LRUCache_set c key v t now =
     (case evict_oldest (max_size c) (lru_cache c) of
        None \<Rightarrow> Inl (RuntimeError, c\<lparr>lru_cache := []\<rparr>)
      | Some d \<Rightarrow>
          Inr (c\<lparr>lru_cache :=
                   od_setitem key
                     \<lparr>entry_value = v, created_at = now,
                      ttl = ttl_or_default t (default_ttl c), hits = 0\<rparr> d\<rparr>))"

definition LRUCache_delete :: "'v LRUCache \<Rightarrow> string \<Rightarrow> bool \<times> 'v LRUCache" where
  "LRUCache_delete c key =
     (if key \<in> fst ` set (lru_cache c)
      then (True, c\<lparr>lru_cache := od_delitem key (lru_cache c)\<rparr>)
      else (False, c))"

definition LRUCache_clear :: "'v LRUCache \<Rightarrow> int \<times> 'v LRUCache" where
  "LRUCache_clear c = (int (length (lru_cache c)), c\<lparr>lru_cache := []\<rparr>)"

definition LRUCache_size :: "'v LRUCache \<Rightarrow> int" where
  "LRUCache_size c = int (length (lru_cache c))"

subsection \<open>Binary64 arithmetic and the rendering of the hit rate\<close>

text \<open>
  \<^verbatim>\<open>stats\<close> computes \<^verbatim>\<open>(self._hits / total * 100) if total > 0 else 0\<close> and renders it as
  \<^verbatim>\<open>f"{hit_rate:.1f}%"\<close>. The quotient and the product are IEEE binary64 values, rounded to
  nearest with ties to even; the format prints the exact binary value rounded to one decimal,
  again ties to even. A finite float is \<open>Finite s m e\<close>, of value \<open>m * 2 ^ e\<close> and negative
  when \<open>s\<close> holds (the sign of a zero is kept); \<open>Infinite s\<close> is an infinity. All arithmetic
  is exact integer arithmetic.

  \<open>round_half_even a b\<close> is the integer nearest to \<open>a / b\<close> for \<open>b > 0\<close>, and
  \<open>floor_log2 a b\<close> the integer part of the binary logarithm of \<open>a / b\<close> for \<open>a, b > 0\<close>.
  \<open>round_ratio a b\<close> rounds \<open>a / b\<close> to 53 significant bits, or to a multiple of
  \<open>2 ^ - 1074\<close> in the subnormal range; \<open>overflows\<close> tells whether the rounded value has left
  the binary64 range. The division of two Python integers is correctly rounded and raises
  \<^verbatim>\<open>OverflowError\<close> beyond that range (and \<^verbatim>\<open>ZeroDivisionError\<close> on a zero divisor); a float
  product becomes an infinity instead. \<open>float_times x k\<close> is the product of \<open>x\<close> and a float
  of value \<open>k\<close>, for an integer \<open>k > 0\<close> that is a float exactly, such as 100.
\<close>

datatype float64 = Finite bool int int | Infinite bool

definition round_half_even :: "int \<Rightarrow> int \<Rightarrow> int" where
  "round_half_even a b =
     (let q = a div b; r = a mod b
      in if 2 * r < b then q else if 2 * r > b then q + 1 else if even q then q else q + 1)"

definition floor_log2 :: "int \<Rightarrow> int \<Rightarrow> int" where
  "floor_log2 a b =
     (let d = bitlen a - bitlen b
      in if a * 2 ^ nat (- d) \<ge> b * 2 ^ nat d then d else d - 1)"

definition round_ratio :: "int \<Rightarrow> int \<Rightarrow> int \<times> int" where
  "round_ratio a b =
     (if a = 0 then (0, 0)
      else (let e = max (floor_log2 a b) (- 1022) - 52
            in (round_half_even (a * 2 ^ nat (- e)) (b * 2 ^ nat e), e)))"

definition overflows :: "int \<Rightarrow> int \<Rightarrow> bool" where
  "overflows n e = (n * 2 ^ nat e \<ge> 2 ^ 1024 * 2 ^ nat (- e))"

definition int_true_div :: "int \<Rightarrow> int \<Rightarrow> error + float64" where
  "int_true_div a b =
     (if b = 0 then Inl ZeroDivisionError
      else (case round_ratio \<bar>a\<bar> \<bar>b\<bar> of
              (n, e) \<Rightarrow> if overflows n e then Inl OverflowError
                        else Inr (Finite ((a < 0) \<noteq> (b < 0)) n e)))"

definition float_times :: "float64 \<Rightarrow> int \<Rightarrow> float64" where
  "float_times x k =
     (case x of
        Infinite s \<Rightarrow> Infinite s
      | Finite s m e \<Rightarrow>
          (case round_ratio (m * k * 2 ^ nat e) (2 ^ nat (- e)) of
             (n, e') \<Rightarrow> if overflows n e' then Infinite s else Finite s n e'))"

definition digit_char :: "nat \<Rightarrow> char" where
  "digit_char d = ''0123456789'' ! d"

fun decimal :: "nat \<Rightarrow> string" where
  "decimal n = (if n < 10 then [digit_char n] else decimal (n div 10) @ [digit_char (n mod 10)])"

declare decimal.simps [simp del]

definition format_1f :: "float64 \<Rightarrow> string" where
  "format_1f x =
     (case x of
        Infinite s \<Rightarrow> (if s then ''-inf'' else ''inf'')
      | Finite s m e \<Rightarrow>
          (let n = nat (round_half_even (10 * m * 2 ^ nat e) (2 ^ nat (- e)))
           in (if s then ''-'' else []) @ decimal (n div 10) @ ''.'' @ decimal (n mod 10)))"

text \<open>
  The dictionary returned by \<^verbatim>\<open>stats\<close>. When \<^verbatim>\<open>total\<close> is not positive, \<^verbatim>\<open>hit_rate\<close> is the
  integer 0, which the format prints as the float zero.
\<close>

record stats_dict =
  st_name :: string
  st_size :: int
  st_max_size :: int
  st_hits :: int
  st_misses :: int
  st_hit_rate :: string

definition LRUCache_stats :: "'v LRUCache \<Rightarrow> error + stats_dict" where
  "LRUCache_stats c =
     (let total = lru_hits c + lru_misses c
      in case (if total > 0
               then (case int_true_div (lru_hits c) total of
                       Inl e \<Rightarrow> Inl e
                     | Inr q \<Rightarrow> Inr (float_times q 100))
               else Inr (Finite False 0 0)) of
           Inl e \<Rightarrow> Inl e
         | Inr hit_rate \<Rightarrow>
             Inr \<lparr>st_name = name c, st_size = int (length (lru_cache c)),
                  st_max_size = max_size c, st_hits = lru_hits c, st_misses = lru_misses c,
                  st_hit_rate = format_1f hit_rate @ ''%''\<rparr>)"

text \<open>
  Sequences of cache operations. Each operation carries the clock reading it makes; a raised
  exception ends the sequence, as it would propagate to the caller.
\<close>

datatype 'v cache_op =
  Get string real
| Set string 'v "real option" real
| Delete string
| Clear

datatype 'v reply = Value "'v option" | Stored | Deleted bool | Cleared int

fun step :: "'v LRUCache \<Rightarrow> 'v cache_op \<Rightarrow> (error \<times> 'v LRUCache) + ('v reply \<times> 'v LRUCache)" where
  "step c (Get key now) = (case LRUCache_get c key now of (r, c') \<Rightarrow> Inr (Value r, c'))"
| "step c (Set key v t now) =
     (case LRUCache_set c key v t now of Inl e \<Rightarrow> Inl e | Inr c' \<Rightarrow> Inr (Stored, c'))"
| "step c (Delete key) = (case LRUCache_delete c key of (b, c') \<Rightarrow> Inr (Deleted b, c'))"
| "step c Clear = (case LRUCache_clear c of (n, c') \<Rightarrow> Inr (Cleared n, c'))"

fun run :: "'v LRUCache \<Rightarrow> 'v cache_op list \<Rightarrow> (error \<times> 'v LRUCache) + ('v reply list \<times> 'v LRUCache)" where
  "run c [] = Inr ([], c)"
| "run c (x # xs) =
     (case step c x of
        Inl e \<Rightarrow> Inl e
      | Inr (r, c') \<Rightarrow> (case run c' xs of Inl e \<Rightarrow> Inl e | Inr (rs, c'') \<Rightarrow> Inr (r # rs, c'')))"

fun is_hit :: "'v reply \<Rightarrow> bool" where
  "is_hit (Value (Some v)) = True"
| "is_hit r = False"

fun is_miss :: "'v reply \<Rightarrow> bool" where
  "is_miss (Value None) = True"
| "is_miss r = False"

text \<open>
  The data invariant of the cache: the size is within the capacity and the keys of the
  dictionary are pairwise different.
\<close>

definition cache_inv :: "'v LRUCache \<Rightarrow> bool" where
  "cache_inv c = (int (length (lru_cache c)) \<le> max_size c \<and> distinct (map fst (lru_cache c)))"


section \<open>The keyed response cache \<^verbatim>\<open>AIResponseCache\<close>\<close>

text \<open>
  \<^verbatim>\<open>hashlib.md5(s.encode()).hexdigest()\<close> is a library function; it is a parameter \<open>md5\<close>
  of the model, about which nothing is assumed. \<^verbatim>\<open>prompt[:500]\<close> is \<open>take 500 prompt\<close>.
  The cached values are the (non-\<^verbatim>\<open>None\<close>) result dictionaries, of an arbitrary type \<open>'v\<close>.
\<close>

definition TTL_VACANCY_ANALYSIS :: real where "TTL_VACANCY_ANALYSIS = 3600"
definition TTL_RECRUITER_ANALYSIS :: real where "TTL_RECRUITER_ANALYSIS = 1800"
definition TTL_RESUME_IMPROVEMENT :: real where "TTL_RESUME_IMPROVEMENT = 900"
definition TTL_RESUME_PARSE :: real where "TTL_RESUME_PARSE = 7200"

record 'v AIResponseCache =
  ai_cache :: "'v LRUCache"

definition AIResponseCache_init :: "int \<Rightarrow> 'v AIResponseCache" where
  "AIResponseCache_init m = \<lparr>ai_cache = LRUCache_init m TTL_VACANCY_ANALYSIS ''ai_cache''\<rparr>"

definition make_key :: "(string \<Rightarrow> string) \<Rightarrow> string \<Rightarrow> string \<Rightarrow> string" where
  "make_key md5 prompt model = (let prompt_hash = md5 (take 500 prompt) in model @ '':'' @ prompt_hash)"

definition get_vacancy_analysis ::
  "(string \<Rightarrow> string) \<Rightarrow> 'v AIResponseCache \<Rightarrow> string \<Rightarrow> string \<Rightarrow> real
     \<Rightarrow> 'v option \<times> 'v AIResponseCache" where
  "get_vacancy_analysis md5 a vacancy_text model now =
     (let key = make_key md5 vacancy_text model
      in case LRUCache_get (ai_cache a) key now of (r, c') \<Rightarrow> (r, a\<lparr>ai_cache := c'\<rparr>))"

definition set_vacancy_analysis ::
  "(string \<Rightarrow> string) \<Rightarrow> 'v AIResponseCache \<Rightarrow> string \<Rightarrow> string \<Rightarrow> 'v \<Rightarrow> real
     \<Rightarrow> (error \<times> 'v AIResponseCache) + 'v AIResponseCache" where
  "set_vacancy_analysis md5 a vacancy_text model result now =
     (let key = make_key md5 vacancy_text model
      in case LRUCache_set (ai_cache a) key result (Some TTL_VACANCY_ANALYSIS) now of
           Inl (e, c') \<Rightarrow> Inl (e, a\<lparr>ai_cache := c'\<rparr>)
         | Inr c' \<Rightarrow> Inr (a\<lparr>ai_cache := c'\<rparr>))"

definition get_recruiter_analysis ::
  "(string \<Rightarrow> string) \<Rightarrow> 'v AIResponseCache \<Rightarrow> string \<Rightarrow> string \<Rightarrow> string \<Rightarrow> real
     \<Rightarrow> 'v option \<times> 'v AIResponseCache" where
  "get_recruiter_analysis md5 a vacancy_text resume_text model now =
     (let combined = take 500 vacancy_text @ ''|'' @ take 500 resume_text;
          key = make_key md5 combined model
      in case LRUCache_get (ai_cache a) key now of (r, c') \<Rightarrow> (r, a\<lparr>ai_cache := c'\<rparr>))"

definition set_recruiter_analysis ::
  "(string \<Rightarrow> string) \<Rightarrow> 'v AIResponseCache \<Rightarrow> string \<Rightarrow> string \<Rightarrow> string \<Rightarrow> 'v \<Rightarrow> real
     \<Rightarrow> (error \<times> 'v AIResponseCache) + 'v AIResponseCache" where
  "set_recruiter_analysis md5 a vacancy_text resume_text model result now =
     (let combined = take 500 vacancy_text @ ''|'' @ take 500 resume_text;
          key = make_key md5 combined model
      in case LRUCache_set (ai_cache a) key result (Some TTL_RECRUITER_ANALYSIS) now of
           Inl (e, c') \<Rightarrow> Inl (e, a\<lparr>ai_cache := c'\<rparr>)
         | Inr c' \<Rightarrow> Inr (a\<lparr>ai_cache := c'\<rparr>))"

text \<open>
  The module-level \<^verbatim>\<open>_ai_cache\<close> is \<open>None\<close> until \<^verbatim>\<open>get_ai_cache\<close> creates it with the
  default capacity of 200.
\<close>

definition get_ai_cache :: "'v AIResponseCache option \<Rightarrow> 'v AIResponseCache" where
  "get_ai_cache g = (case g of None \<Rightarrow> AIResponseCache_init 200 | Some a \<Rightarrow> a)"

text \<open>
  \<^verbatim>\<open>cached_ai_call(cache_key, ttl, func, *args)\<close>. The awaited \<^verbatim>\<open>func(*args)\<close> is an
  external call: the argument \<open>func\<close> is the value it returns when it is awaited (\<open>None\<close> for
  Python's \<^verbatim>\<open>None\<close>). The clock is read once by the lookup (\<open>now1\<close>) and once by the store
  (\<open>now2\<close>). The result is the returned value, whether \<^verbatim>\<open>func\<close> was awaited, and the new
  value of the global \<^verbatim>\<open>_ai_cache\<close>.
\<close>

definition cached_ai_call ::
  "'v AIResponseCache option \<Rightarrow> string \<Rightarrow> real \<Rightarrow> 'v option \<Rightarrow> real \<Rightarrow> real
     \<Rightarrow> (error \<times> 'v AIResponseCache option) + ('v option \<times> bool \<times> 'v AIResponseCache option)" where
  "cached_ai_call g cache_key t func now1 now2 =
     (let a = get_ai_cache g
      in case LRUCache_get (ai_cache a) cache_key now1 of
           (Some cached, c1) \<Rightarrow> Inr (Some cached, False, Some (a\<lparr>ai_cache := c1\<rparr>))
         | (None, c1) \<Rightarrow>
             (case func of
                None \<Rightarrow> Inr (None, True, Some (a\<lparr>ai_cache := c1\<rparr>))
              | Some result \<Rightarrow>
                  (case LRUCache_set c1 cache_key result (Some t) now2 of
                     Inl (e, c2) \<Rightarrow> Inl (e, Some (a\<lparr>ai_cache := c2\<rparr>))
                   | Inr c2 \<Rightarrow> Inr (Some result, True, Some (a\<lparr>ai_cache := c2\<rparr>)))))"

section \<open>The connection pool of \<^verbatim>\<open>database.py\<close>\<close>

text \<open>
  One coroutine runs against the pool. A connection handle is the number of the
  \<^verbatim>\<open>aiosqlite.connect\<close> call that made it (\<open>opened\<close> counts those calls); the external calls
  (\<^verbatim>\<open>os.makedirs\<close>, \<^verbatim>\<open>connect\<close>, \<^verbatim>\<open>execute\<close>, \<^verbatim>\<open>commit\<close>) are taken to succeed.
  \<open>lock_held\<close> is the state of the \<^verbatim>\<open>asyncio.Lock\<close>, which is not reentrant: awaiting it
  while it is held suspends the coroutine until somebody releases it. With no other coroutine
  to do that the wait never ends, which is the outcome \<open>Deadlock\<close> (carrying the state in
  which the coroutine is stuck).
\<close>

type_synonym conn = nat

record DatabasePool =
  db_path :: string
  pool_size :: int
  timeout :: real
  pool_queue :: "conn list"
  connections :: "conn list"
  lock_held :: bool
  initialized :: bool
  opened :: nat

datatype 'a outcome = Done 'a DatabasePool | Raise error DatabasePool | Deadlock DatabasePool

definition DatabasePool_init :: "string \<Rightarrow> int \<Rightarrow> real \<Rightarrow> DatabasePool" where
  "DatabasePool_init path n t =
     \<lparr>db_path = path, pool_size = n, timeout = t, pool_queue = [], connections = [],
      lock_held = False, initialized = False, opened = 0\<rparr>"

text \<open>
  \<^verbatim>\<open>asyncio.Queue(maxsize=pool_size)\<close>: \<^verbatim>\<open>put\<close> waits while the queue is full (a queue with
  \<^verbatim>\<open>maxsize <= 0\<close> is never full); \<^verbatim>\<open>wait_for(get(), timeout)\<close> on an empty queue that
  nobody fills raises \<^verbatim>\<open>TimeoutError\<close>.
\<close>

definition queue_put :: "DatabasePool \<Rightarrow> conn \<Rightarrow> unit outcome" where
  "queue_put p conn =
     (if 0 < pool_size p \<and> int (length (pool_queue p)) \<ge> pool_size p
      then Deadlock p
      else Done () (p\<lparr>pool_queue := pool_queue p @ [conn]\<rparr>))"

definition queue_get :: "DatabasePool \<Rightarrow> conn outcome" where
  "queue_get p =
     (case pool_queue p of
        [] \<Rightarrow> Raise TimeoutError p
      | conn # rest \<Rightarrow> Done conn (p\<lparr>pool_queue := rest\<rparr>))"

text \<open>The loop \<^verbatim>\<open>for _ in range(self.pool_size)\<close> of \<^verbatim>\<open>initialize\<close>.\<close>

fun create_connections :: "nat \<Rightarrow> DatabasePool \<Rightarrow> unit outcome" where
  "create_connections 0 p = Done () p"
| "create_connections (Suc n) p =
     (let conn = opened p;
          p1 = p\<lparr>opened := opened p + 1, connections := connections p @ [conn]\<rparr>
      in case queue_put p1 conn of
           Done u p2 \<Rightarrow> create_connections n p2
         | Raise e p2 \<Rightarrow> Raise e p2
         | Deadlock p2 \<Rightarrow> Deadlock p2)"

text \<open>
  \<^verbatim>\<open>acquire\<close> is a context manager: \<open>acquire_enter\<close> is its body up to the \<^verbatim>\<open>yield\<close>,
  \<open>acquire_exit\<close> the \<^verbatim>\<open>finally\<close> clause. \<^verbatim>\<open>initialize\<close> enters it for the schema while
  it holds the lock and before it sets \<^verbatim>\<open>_initialized\<close>; \<^verbatim>\<open>async with self._lock\<close> releases
  the lock when an exception leaves the block.
\<close>

definition acquire_exit :: "DatabasePool \<Rightarrow> conn \<Rightarrow> unit outcome" where
  "acquire_exit p conn = queue_put p conn"

function initialize :: "DatabasePool \<Rightarrow> unit outcome"
  and acquire_enter :: "DatabasePool \<Rightarrow> conn outcome" where
  "initialize p =
     (if initialized p then Done () p
      else if lock_held p then Deadlock p
      else let p1 = p\<lparr>lock_held := True\<rparr>
           in if initialized p1 then Done () (p1\<lparr>lock_held := False\<rparr>)
              else (case create_connections (nat (pool_size p1)) p1 of
                      Done u p2 \<Rightarrow>
                        (case acquire_enter p2 of
                           Done conn p3 \<Rightarrow>
                             (case acquire_exit p3 conn of
                                Done u' p4 \<Rightarrow> Done () (p4\<lparr>initialized := True, lock_held := False\<rparr>)
                              | Raise e p4 \<Rightarrow> Raise e (p4\<lparr>lock_held := False\<rparr>)
                              | Deadlock p4 \<Rightarrow> Deadlock p4)
                         | Raise e p3 \<Rightarrow> Raise e (p3\<lparr>lock_held := False\<rparr>)
                         | Deadlock p3 \<Rightarrow> Deadlock p3)
                    | Raise e p2 \<Rightarrow> Raise e (p2\<lparr>lock_held := False\<rparr>)
                    | Deadlock p2 \<Rightarrow> Deadlock p2))"
| "acquire_enter p =
     (if \<not> initialized p
      then (case initialize p of
              Done u p' \<Rightarrow> queue_get p'
            | Raise e p' \<Rightarrow> Raise e p'
            | Deadlock p' \<Rightarrow> Deadlock p')
      else queue_get p)"
  by pat_completeness auto
termination
proof (relation "measure (\<lambda>x. case x of
                     Inl p \<Rightarrow> (if lock_held p then 0 else 2)
                   | Inr p \<Rightarrow> (if lock_held p then 1 else 3))")
  show "wf (measure (\<lambda>x. case x of
                     Inl p \<Rightarrow> (if lock_held p then 0 else 2)
                   | Inr p \<Rightarrow> (if lock_held p then 1 else (3::nat))))"
    by simp
next
  fix p p1 :: DatabasePool and u :: unit and p2 :: DatabasePool
  assume a: "p1 = p\<lparr>lock_held := True\<rparr>"
    and c: "create_connections (nat (pool_size p1)) p1 = Done u p2"
    and nl: "\<not> lock_held p"
  have keep: "\<And>n q u q'. create_connections n q = Done u q' \<Longrightarrow> lock_held q' = lock_held q"
  proof -
    fix n q u q'
    show "create_connections n q = Done u q' \<Longrightarrow> lock_held q' = lock_held q"
    proof (induction n arbitrary: q)
      case 0
      then show ?case by simp
    next
      case (Suc n)
      then show ?case
        by (auto simp: queue_put_def Let_def split: if_splits)
    qed
  qed
  from keep[OF c] a have "lock_held p2" by simp
  with nl show "(Inr p2, Inl p) \<in> measure (\<lambda>x. case x of
                     Inl p \<Rightarrow> (if lock_held p then 0 else 2)
                   | Inr p \<Rightarrow> (if lock_held p then 1 else 3))"
    by simp
next
  fix p :: DatabasePool
  show "(Inl p, Inr p) \<in> measure (\<lambda>x. case x of
                     Inl p \<Rightarrow> (if lock_held p then 0 else 2)
                   | Inr p \<Rightarrow> (if lock_held p then 1 else 3))"
    by simp
qed

section \<open>The improvement-task registry of \<^verbatim>\<open>state.py\<close>\<close>

text \<open>
  \<^verbatim>\<open>AppState._improvement_tasks\<close> is a dictionary from the vacancy id to a dictionary with
  the keys \<^verbatim>\<open>task\<close>, \<^verbatim>\<open>status\<close> and, once set, \<^verbatim>\<open>result\<close>. A Python dictionary iterates in
  insertion order, so it is an association list like the \<^verbatim>\<open>OrderedDict\<close> above.
\<close>

record ('h, 'r) task_info =
  task :: 'h
  status :: string
  result :: "'r option"

definition add_improvement_task ::
  "('h, 'r) task_info ordered_dict \<Rightarrow> string \<Rightarrow> 'h \<Rightarrow> ('h, 'r) task_info ordered_dict" where
  "add_improvement_task tasks vacancy_id t =
     od_setitem vacancy_id \<lparr>task = t, status = ''running'', result = None\<rparr> tasks"

definition update_improvement_task ::
  "('h, 'r) task_info ordered_dict \<Rightarrow> string \<Rightarrow> string \<Rightarrow> 'r option
     \<Rightarrow> ('h, 'r) task_info ordered_dict" where
  "update_improvement_task tasks vacancy_id st res =
     (case map_of tasks vacancy_id of
        None \<Rightarrow> tasks
      | Some info \<Rightarrow>
          od_setitem vacancy_id
            (info\<lparr>status := st, result := (case res of None \<Rightarrow> result info | Some r \<Rightarrow> Some r)\<rparr>)
            tasks)"

definition get_improvement_task ::
  "('h, 'r) task_info ordered_dict \<Rightarrow> string \<Rightarrow> ('h, 'r) task_info option" where
  "get_improvement_task tasks vacancy_id = map_of tasks vacancy_id"

text \<open>
  The slice \<^verbatim>\<open>xs[:stop]\<close>: a negative \<open>stop\<close> counts from the end, and the bound is clipped
  to the list.
\<close>

definition slice_upto :: "int \<Rightarrow> 'a list \<Rightarrow> 'a list" where
  "slice_upto stop xs =
     (if stop < 0 then take (nat (int (length xs) + stop)) xs else take (nat stop) xs)"

definition is_finished :: "('h, 'r) task_info \<Rightarrow> bool" where
  "is_finished info = (status info = ''completed'' \<or> status info = ''error'')"

definition cleanup_improvement_tasks ::
  "('h, 'r) task_info ordered_dict \<Rightarrow> int \<Rightarrow> ('h, 'r) task_info ordered_dict" where
  "cleanup_improvement_tasks tasks max_completed =
     (let completed = map fst (filter (\<lambda>(vid, info). is_finished info) tasks)
      in if int (length completed) > max_completed
         then (let to_remove = slice_upto (- max_completed) completed
               in fold od_delitem to_remove tasks)
         else tasks)"

section \<open>Properties of the ordered dictionary and of the cache\<close>

lemma evict_oldest_Some:
  "0 < m \<Longrightarrow> \<exists>d'. evict_oldest m d = Some d' \<and> int (length d') < m \<and> (\<exists>n. d' = drop n d)"
proof (induction d)
  case Nil
  then show ?case by simp
next
  case (Cons p ps)
  show ?case
  proof (cases "int (length (p # ps)) \<ge> m")
    case True
    from Cons obtain d' n where "evict_oldest m ps = Some d'" "int (length d') < m" "d' = drop n ps"
      by blast
    then have "evict_oldest m (p # ps) = Some d' \<and> int (length d') < m \<and> d' = drop (Suc n) (p # ps)"
      using True by simp
    then show ?thesis by blast
  next
    case False
    then have "evict_oldest m (p # ps) = Some (p # ps) \<and> int (length (p # ps)) < m \<and> p # ps = drop 0 (p # ps)"
      by simp
    then show ?thesis by blast
  qed
qed

lemma od_setitem_keys:
  "map fst (od_setitem k v d) = (if k \<in> fst ` set d then map fst d else map fst d @ [k])"
  by (induction d) auto

lemma od_setitem_length:
  "length (od_setitem k v d) = (if k \<in> fst ` set d then length d else Suc (length d))"
  by (induction d) auto

lemma od_delitem_keys: "map fst (od_delitem k d) = filter (\<lambda>x. x \<noteq> k) (map fst d)"
  by (induction d) (auto simp: od_delitem_def)

lemma od_delitem_length_less: "k \<in> fst ` set d \<Longrightarrow> length (od_delitem k d) < length d"
proof (induction d)
  case Nil
  then show ?case by simp
next
  case (Cons p ps)
  show ?case
  proof (cases "fst p = k")
    case True
    then show ?thesis by (simp add: od_delitem_def less_Suc_eq_le)
  next
    case False
    with Cons.prems have "k \<in> fst ` set ps" by auto
    with Cons.IH have "length (od_delitem k ps) < length ps" by simp
    with False show ?thesis by (simp add: od_delitem_def)
  qed
qed

lemma od_move_to_end_keys:
  "map_of d k = Some v \<Longrightarrow> map fst (od_move_to_end k d) = filter (\<lambda>x. x \<noteq> k) (map fst d) @ [k]"
  by (simp add: od_move_to_end_def od_delitem_keys)

lemma map_of_in_keys: "map_of d k = Some v \<Longrightarrow> k \<in> fst ` set d"
  by (metis domI dom_map_of_conv_image_fst)

lemma get_hit_cache:
  assumes "map_of d k = Some e"
  shows "od_setitem k e' (od_move_to_end k d) = od_delitem k d @ [(k, e')]"
proof -
  have notin: "k \<notin> fst ` set (od_delitem k d)"
    by (auto simp: od_delitem_def)
  have aux: "\<And>xs. k \<notin> fst ` set xs \<Longrightarrow> od_setitem k e' (xs @ [(k, e)]) = xs @ [(k, e')]"
  proof -
    fix xs :: "(string \<times> 'a) list"
    show "k \<notin> fst ` set xs \<Longrightarrow> od_setitem k e' (xs @ [(k, e)]) = xs @ [(k, e')]"
      by (induction xs) auto
  qed
  show ?thesis using assms aux[OF notin] by (simp add: od_move_to_end_def)
qed

lemma get_preserves_inv:
  assumes "cache_inv c"
  shows "cache_inv (snd (LRUCache_get c key now))"
proof (cases "map_of (lru_cache c) key")
  case None
  then show ?thesis using assms by (simp add: LRUCache_get_def cache_inv_def)
next
  case (Some e)
  have len: "length (od_delitem key (lru_cache c)) < length (lru_cache c)"
    using od_delitem_length_less[OF map_of_in_keys[OF Some]] .
  have dist: "distinct (map fst (od_delitem key (lru_cache c)))"
    using assms by (simp add: od_delitem_keys cache_inv_def)
  have notin: "key \<notin> set (map fst (od_delitem key (lru_cache c)))"
    by (simp add: od_delitem_keys)
  show ?thesis
  proof (cases "is_expired e now")
    case True
    then show ?thesis using Some assms len dist
      by (simp add: LRUCache_get_def cache_inv_def)
  next
    case False
    then show ?thesis using Some assms len dist notin
      by (simp add: LRUCache_get_def cache_inv_def get_hit_cache[OF Some])
  qed
qed

lemma set_preserves_inv:
  assumes "0 < max_size c" and "distinct (map fst (lru_cache c))"
  shows "\<exists>c'. LRUCache_set c key v t now = Inr c' \<and> cache_inv c' \<and> max_size c' = max_size c"
proof -
  from evict_oldest_Some[OF assms(1), of "lru_cache c"]
  obtain d' n where ev: "evict_oldest (max_size c) (lru_cache c) = Some d'"
    and len: "int (length d') < max_size c" and dr: "d' = drop n (lru_cache c)"
    by blast
  have "distinct (map fst d')"
    using assms(2) dr by (simp add: drop_map[symmetric] del: drop_map)
  then show ?thesis using ev len
    by (simp add: LRUCache_set_def cache_inv_def od_setitem_keys od_setitem_length)
qed

lemma delete_preserves_inv: "cache_inv c \<Longrightarrow> cache_inv (snd (LRUCache_delete c key))"
proof -
  assume inv: "cache_inv c"
  have "length (od_delitem key (lru_cache c)) \<le> length (lru_cache c)"
    by (simp add: od_delitem_def)
  moreover have "distinct (map fst (od_delitem key (lru_cache c)))"
    using inv by (simp add: od_delitem_keys cache_inv_def)
  ultimately show ?thesis using inv
    by (simp add: LRUCache_delete_def cache_inv_def)
qed

lemma get_max_size: "max_size (snd (LRUCache_get c key now)) = max_size c"
  by (simp add: LRUCache_get_def split: option.splits)

lemma step_inv:
  assumes "0 < max_size c" and "cache_inv c"
  shows "\<exists>r c'. step c x = Inr (r, c') \<and> cache_inv c' \<and> max_size c' = max_size c"
proof (cases x)
  case (Get key now)
  have "step c x = Inr (Value (fst (LRUCache_get c key now)), snd (LRUCache_get c key now))"
    using Get by (simp add: case_prod_unfold)
  then show ?thesis
    using get_preserves_inv[OF assms(2), of key now] get_max_size[of c key now] by blast
next
  case (Set key v t now)
  from assms(2) have "distinct (map fst (lru_cache c))" by (simp add: cache_inv_def)
  from set_preserves_inv[OF assms(1) this, of key v t now]
  obtain c' where "LRUCache_set c key v t now = Inr c'" "cache_inv c'" "max_size c' = max_size c"
    by blast
  then show ?thesis using Set by simp
next
  case (Delete key)
  have "step c x = Inr (Deleted (fst (LRUCache_delete c key)), snd (LRUCache_delete c key))"
    using Delete by (simp add: case_prod_unfold)
  moreover have "max_size (snd (LRUCache_delete c key)) = max_size c"
    by (simp add: LRUCache_delete_def)
  ultimately show ?thesis using delete_preserves_inv[OF assms(2), of key] by blast
next
  case Clear
  then show ?thesis using assms by (simp add: LRUCache_clear_def cache_inv_def)
qed

lemma run_inv:
  "0 < max_size c \<Longrightarrow> cache_inv c \<Longrightarrow>
   \<exists>rs c'. run c xs = Inr (rs, c') \<and> cache_inv c' \<and> max_size c' = max_size c"
proof (induction xs arbitrary: c)
  case Nil
  then show ?case by simp
next
  case (Cons x xs)
  from step_inv[OF Cons.prems, of x]
  obtain r c1 where s: "step c x = Inr (r, c1)" "cache_inv c1" "max_size c1 = max_size c"
    by blast
  with Cons.prems have "0 < max_size c1" by simp
  from Cons.IH[OF this s(2)]
  obtain rs c2 where "run c1 xs = Inr (rs, c2)" "cache_inv c2" "max_size c2 = max_size c1"
    by blast
  with s show ?case by simp
qed

lemma init_inv: "0 \<le> m \<Longrightarrow> cache_inv (LRUCache_init m d n)"
  by (simp add: cache_inv_def LRUCache_init_def)

text \<open>
  Claim C6. For a cache constructed with a capacity above zero, every finite sequence of
  operations (\<^verbatim>\<open>set\<close> and \<^verbatim>\<open>get\<close> with any keys, values, TTLs and clock readings, and also
  \<^verbatim>\<open>delete\<close> and \<^verbatim>\<open>clear\<close>) runs to completion, and after each operation of the sequence
  (that is, after every prefix of it) the size is at most the capacity and no two entries
  share a key.
\<close>

theorem size_within_capacity_keys_unique:
  assumes "0 < m"
  shows "\<exists>rs c. run (LRUCache_init m d n) (take i ops) = Inr (rs, c)
           \<and> LRUCache_size c \<le> m \<and> distinct (map fst (lru_cache c))"
proof -
  have "0 < max_size (LRUCache_init m d n :: 'a LRUCache)"
    using assms by (simp add: LRUCache_init_def)
  from run_inv[OF this init_inv, of "take i ops"] assms
  obtain rs c where "run (LRUCache_init m d n) (take i ops) = Inr (rs, c)" "cache_inv c"
    "max_size c = max_size (LRUCache_init m d n :: 'a LRUCache)"
    by auto
  then show ?thesis
    by (auto simp: cache_inv_def LRUCache_size_def LRUCache_init_def)
qed

theorem size_within_capacity_keys_unique_witness:
  "(0::int) < 2 \<and>
   (\<exists>rs c. run (LRUCache_init 2 300 ''cache'')
              (take 3 [Set ''a'' (1::nat) None 0, Set ''b'' 2 None 1, Set ''c'' 3 None 2])
            = Inr (rs, c)
          \<and> LRUCache_size c \<le> 2 \<and> distinct (map fst (lru_cache c)))"
  using size_within_capacity_keys_unique
    [of 2 300 "''cache''" 3 "[Set ''a'' (1::nat) None 0, Set ''b'' 2 None 1, Set ''c'' 3 None 2]"]
  by simp

subsection \<open>Rounding errors of the rendered hit rate\<close>

lemma round_half_even_error:
  assumes "0 < b"
  shows "\<bar>real_of_int (round_half_even a b) - real_of_int a / real_of_int b\<bar> \<le> 1 / 2"
proof -
  define q where "q = a div b"
  define r where "r = a mod b"
  have a: "a = b * q + r" by (simp add: q_def r_def)
  have r: "0 \<le> r" "r < b" using assms by (simp_all add: r_def)
  have b: "0 < real_of_int b" using assms by simp
  have eq: "real_of_int a / real_of_int b = real_of_int q + real_of_int r / real_of_int b"
    using b by (simp add: a field_simps)
  have frac: "0 \<le> real_of_int r / real_of_int b" "real_of_int r / real_of_int b < 1"
    using r b by simp_all
  consider (lo) "2 * r < b" | (hi) "2 * r > b" | (tie) "2 * r = b" by linarith
  then show ?thesis
  proof cases
    case lo
    then have "real_of_int r / real_of_int b < 1 / 2"
      using b by (simp add: field_simps)
    with lo frac show ?thesis
      by (simp add: round_half_even_def Let_def q_def[symmetric] r_def[symmetric] eq)
  next
    case hi
    then have "real_of_int r / real_of_int b > 1 / 2"
      using b by (simp add: field_simps)
    with hi frac show ?thesis
      by (simp add: round_half_even_def Let_def q_def[symmetric] r_def[symmetric] eq)
  next
    case tie
    then have "real_of_int b = 2 * real_of_int r" by linarith
    then have half: "real_of_int r / real_of_int b = 1 / 2"
      using b by (simp add: field_simps)
    have "round_half_even a b = q \<or> round_half_even a b = q + 1"
      using tie by (simp add: round_half_even_def Let_def q_def[symmetric] r_def[symmetric])
    then show ?thesis unfolding eq half by auto
  qed
qed

lemma round_half_even_nonneg:
  assumes "0 \<le> a" and "0 < b"
  shows "0 \<le> round_half_even a b"
proof -
  have "0 \<le> a div b" using assms by (simp add: pos_imp_zdiv_nonneg_iff)
  then show ?thesis by (auto simp: round_half_even_def Let_def)
qed

lemma round_half_even_le:
  assumes "0 < b" and "a \<le> b * k"
  shows "round_half_even a b \<le> k"
proof -
  have "real_of_int a \<le> real_of_int b * real_of_int k"
    using assms(2) by (metis of_int_le_iff of_int_mult)
  then have "real_of_int a / real_of_int b \<le> real_of_int k"
    using assms(1) by (simp add: field_simps)
  with round_half_even_error[OF assms(1), of a]
  have "real_of_int (round_half_even a b) \<le> real_of_int k + 1 / 2" by linarith
  then show ?thesis by linarith
qed

lemma bitlen_mono: "a \<le> b \<Longrightarrow> bitlen a \<le> bitlen b"
proof (cases "0 < b")
  case True
  assume "a \<le> b"
  with bitlen_bounds[OF True] have "a < 2 ^ nat (bitlen b)" by linarith
  then show ?thesis by (simp add: bitlen_le_iff_power bitlen_nonneg)
next
  case False
  assume "a \<le> b"
  with False have "a \<le> 0" by simp
  then show ?thesis by (simp add: bitlen_eq_zero_iff[THEN iffD2] bitlen_nonneg)
qed

lemma floor_log2_le: "floor_log2 a b \<le> bitlen a - bitlen b"
  by (simp add: floor_log2_def Let_def)

lemma round_ratio_error:
  assumes "0 < a" and "0 < b" and "round_ratio a b = (n, e)" and "e \<le> 0"
  shows "\<bar>real_of_int n / 2 ^ nat (- e) - real_of_int a / real_of_int b\<bar> \<le> 1 / (2 * 2 ^ nat (- e))"
proof -
  let ?S = "2 ^ nat (- e) :: int"
  have n: "n = round_half_even (a * ?S) b"
    using assms by (auto simp: round_ratio_def Let_def)
  have S: "0 < real_of_int ?S" by simp
  have "\<bar>real_of_int n - real_of_int (a * ?S) / real_of_int b\<bar> \<le> 1 / 2"
    unfolding n by (rule round_half_even_error[OF assms(2)])
  then have "\<bar>real_of_int n - real_of_int a / real_of_int b * real_of_int ?S\<bar> \<le> 1 / 2"
    by simp
  then have "\<bar>real_of_int n - real_of_int a / real_of_int b * real_of_int ?S\<bar> / real_of_int ?S
             \<le> (1 / 2) / real_of_int ?S"
    by (rule divide_right_mono) simp
  moreover have "\<bar>real_of_int n - real_of_int a / real_of_int b * real_of_int ?S\<bar> / real_of_int ?S
        = \<bar>real_of_int n / real_of_int ?S - real_of_int a / real_of_int b\<bar>"
  proof -
    have "\<bar>real_of_int n - real_of_int a / real_of_int b * real_of_int ?S\<bar> / real_of_int ?S
          = \<bar>(real_of_int n - real_of_int a / real_of_int b * real_of_int ?S) / real_of_int ?S\<bar>"
      using S by (simp only: abs_divide abs_of_pos)
    also have "(real_of_int n - real_of_int a / real_of_int b * real_of_int ?S) / real_of_int ?S
          = real_of_int n / real_of_int ?S - real_of_int a / real_of_int b"
      using S by (simp add: diff_divide_distrib)
    finally show ?thesis .
  qed
  ultimately show ?thesis by simp
qed

lemma half_ulp_bound:
  assumes "k \<le> m"
  shows "1 / (2 * 2 ^ m) \<le> 1 / (2::real) ^ Suc k"
proof -
  have "(2::real) ^ k \<le> 2 ^ m" using assms by simp
  then have "(2::real) ^ Suc k \<le> 2 * 2 ^ m" by simp
  then show ?thesis by (intro divide_left_mono) simp_all
qed

lemma div_ok:
  assumes "0 \<le> h" and "h \<le> tot" and "0 < tot"
  shows "\<exists>n e. int_true_div h tot = Inr (Finite False n e) \<and> 0 \<le> n \<and> e \<le> 0
           \<and> n \<le> 2 ^ nat (- e)
           \<and> \<bar>real_of_int n / 2 ^ nat (- e) - real_of_int h / real_of_int tot\<bar> \<le> 1 / 2 ^ 53"
proof (cases "h = 0")
  case True
  then have "int_true_div h tot = Inr (Finite False 0 0)"
    using assms(3) by (simp add: int_true_div_def round_ratio_def overflows_def)
  then show ?thesis using True by (intro exI[of _ 0]) simp
next
  case False
  with assms have h: "0 < h" by simp
  obtain n e where re: "round_ratio h tot = (n, e)" by (cases "round_ratio h tot")
  have "bitlen h \<le> bitlen tot" using assms(2) by (rule bitlen_mono)
  with floor_log2_le[of h tot] have fl: "floor_log2 h tot \<le> 0" by simp
  have e: "e = max (floor_log2 h tot) (- 1022) - 52"
    using re False by (simp add: round_ratio_def Let_def)
  with fl have e52: "e \<le> - 52" by simp
  then have e0: "e \<le> 0" and ne: "nat e = 0" by simp_all
  let ?S = "2 ^ nat (- e) :: int"
  have n: "n = round_half_even (h * ?S) tot"
    using re False ne by (simp add: round_ratio_def Let_def e[symmetric])
  have nn: "0 \<le> n" unfolding n using h assms(3) by (intro round_half_even_nonneg) simp_all
  have nS: "n \<le> ?S" unfolding n
    using assms(2,3) by (intro round_half_even_le) (simp_all add: mult.commute mult_right_mono)
  have big: "(1::int) < 2 ^ 1024" by (rule one_less_power) simp_all
  have "1 * ?S < 2 ^ 1024 * ?S" by (rule mult_strict_right_mono[OF big]) simp
  with nS have "n < 2 ^ 1024 * ?S" by (simp only: mult_1)
  then have no: "\<not> overflows n e"
    by (simp only: overflows_def ne power_0 mult_1_right not_le)
  have d: "int_true_div h tot = Inr (Finite False n e)"
    using re no assms h by (simp add: int_true_div_def)
  have "52 \<le> nat (- e)" using e52 by simp
  then have "1 / (2 * 2 ^ nat (- e)) \<le> 1 / (2::real) ^ Suc 52" by (rule half_ulp_bound)
  then have "1 / (2 * 2 ^ nat (- e)) \<le> 1 / (2::real) ^ 53" by (simp only: eval_nat_numeral)
  with round_ratio_error[OF h assms(3) re e0]
  have "\<bar>real_of_int n / 2 ^ nat (- e) - real_of_int h / real_of_int tot\<bar> \<le> 1 / 2 ^ 53"
    by (rule order_trans)
  with d nn e0 nS show ?thesis by blast
qed

lemma times_ok:
  assumes "0 \<le> n" and "n \<le> 2 ^ nat (- e)" and "e \<le> 0"
  shows "\<exists>n' e'. float_times (Finite False n e) 100 = Finite False n' e' \<and> 0 \<le> n' \<and> e' \<le> 0
           \<and> \<bar>real_of_int n' / 2 ^ nat (- e') - 100 * (real_of_int n / 2 ^ nat (- e))\<bar> \<le> 1 / 2 ^ 47"
proof (cases "n = 0")
  case True
  have "\<not> overflows 0 0" by (simp add: overflows_def)
  then have "float_times (Finite False n e) 100 = Finite False 0 0"
    using True by (simp add: float_times_def round_ratio_def)
  then show ?thesis using True by (intro exI[of _ 0]) simp
next
  case False
  with assms(1) have n: "0 < n" by simp
  from assms(3) have ne: "nat e = 0" by simp
  define k where "k = nat (- e)"
  let ?a = "n * 100"
  let ?b = "2 ^ k :: int"
  have a: "0 < ?a" using n by simp
  have b: "0 < ?b" by simp
  obtain n' e' where re: "round_ratio ?a ?b = (n', e')" by (cases "round_ratio ?a ?b")
  have "?a \<le> 100 * 2 ^ k" using assms(2) by (simp add: k_def)
  also have "\<dots> < 2 ^ 7 * (2 ^ k :: int)" by simp
  also have "\<dots> = 2 ^ nat (int k + 7)" by (simp add: nat_add_distrib power_add)
  finally have "bitlen ?a \<le> int k + 7" by (simp add: bitlen_le_iff_power)
  moreover have "bitlen ?b = 1 + int k"
    using bitlen_pow2[of 1 k] by (simp add: bitlen_alt_def)
  ultimately have fl: "floor_log2 ?a ?b \<le> 6"
    using floor_log2_le[of ?a ?b] by linarith
  have e': "e' = max (floor_log2 ?a ?b) (- 1022) - 52"
    using re a by (simp add: round_ratio_def Let_def)
  with fl have e46: "e' \<le> - 46" by simp
  then have e0: "e' \<le> 0" and ne': "nat e' = 0" by simp_all
  let ?S = "2 ^ nat (- e') :: int"
  have n': "n' = round_half_even (?a * ?S) ?b"
    using re a ne' by (simp add: round_ratio_def Let_def e'[symmetric])
  have nn: "0 \<le> n'" unfolding n' using a by (intro round_half_even_nonneg) simp_all
  have "?a * ?S \<le> (100 * ?b) * ?S"
    using assms(2) by (intro mult_right_mono) (simp_all add: k_def)
  then have "?a * ?S \<le> ?b * (100 * ?S)" by (simp add: mult_ac)
  then have nS: "n' \<le> 100 * ?S" unfolding n' by (intro round_half_even_le b)
  have big: "(100::int) < 2 ^ 1024"
  proof -
    have "(100::int) < 2 ^ 7" by simp
    also have "\<dots> \<le> 2 ^ 1024" by (rule power_increasing) simp_all
    finally show ?thesis .
  qed
  have "100 * ?S < 2 ^ 1024 * ?S" by (rule mult_strict_right_mono[OF big]) simp
  with nS have "n' < 2 ^ 1024 * ?S" by linarith
  then have no: "\<not> overflows n' e'"
    by (simp only: overflows_def ne' power_0 mult_1_right not_le)
  have ft: "float_times (Finite False n e) 100 = Finite False n' e'"
    using re no by (simp add: float_times_def ne k_def)
  have "46 \<le> nat (- e')" using e46 by simp
  then have "1 / (2 * 2 ^ nat (- e')) \<le> 1 / (2::real) ^ Suc 46" by (rule half_ulp_bound)
  then have "1 / (2 * 2 ^ nat (- e')) \<le> 1 / (2::real) ^ 47" by (simp only: eval_nat_numeral)
  with round_ratio_error[OF a b re e0]
  have "\<bar>real_of_int n' / 2 ^ nat (- e') - real_of_int ?a / real_of_int ?b\<bar> \<le> 1 / 2 ^ 47"
    by (rule order_trans)
  moreover have "real_of_int ?a / real_of_int ?b = 100 * (real_of_int n / 2 ^ nat (- e))"
    by (simp add: k_def)
  ultimately have "\<bar>real_of_int n' / 2 ^ nat (- e') - 100 * (real_of_int n / 2 ^ nat (- e))\<bar> \<le> 1 / 2 ^ 47"
    by simp
  with ft nn e0 show ?thesis by blast
qed

lemma format_ok:
  assumes "0 \<le> n" and "e \<le> 0"
  shows "\<exists>t. format_1f (Finite False n e) = decimal (t div 10) @ ''.'' @ decimal (t mod 10)
           \<and> \<bar>real t / 10 - real_of_int n / 2 ^ nat (- e)\<bar> \<le> 1 / 20"
proof -
  from assms(2) have ne: "nat e = 0" by simp
  let ?S = "2 ^ nat (- e) :: int"
  let ?r = "round_half_even (10 * n) ?S"
  have r0: "0 \<le> ?r" using assms(1) by (intro round_half_even_nonneg) simp_all
  have f: "format_1f (Finite False n e) = decimal (nat ?r div 10) @ ''.'' @ decimal (nat ?r mod 10)"
    by (simp add: format_1f_def ne Let_def)
  have "\<bar>real_of_int ?r - real_of_int (10 * n) / real_of_int ?S\<bar> \<le> 1 / 2"
    by (rule round_half_even_error) simp
  then have "\<bar>real (nat ?r) - 10 * (real_of_int n / 2 ^ nat (- e))\<bar> \<le> 1 / 2"
    using r0 by simp
  then have "\<bar>real (nat ?r) / 10 - real_of_int n / 2 ^ nat (- e)\<bar> \<le> 1 / 20"
    by linarith
  with f show ?thesis by blast
qed

lemma hit_rate_render:
  assumes "0 \<le> h" and "h \<le> tot" and "0 < tot"
  shows "\<exists>q t. int_true_div h tot = Inr q
           \<and> format_1f (float_times q 100) = decimal (t div 10) @ ''.'' @ decimal (t mod 10)
           \<and> \<bar>real t / 10 - 100 * (real_of_int h / real_of_int tot)\<bar> \<le> 1 / 20 + 1 / 2 ^ 45"
proof -
  from div_ok[OF assms] obtain n e where
    d: "int_true_div h tot = Inr (Finite False n e)" and n: "0 \<le> n" "n \<le> 2 ^ nat (- e)" and e: "e \<le> 0"
    and de: "\<bar>real_of_int n / 2 ^ nat (- e) - real_of_int h / real_of_int tot\<bar> \<le> 1 / 2 ^ 53"
    by blast
  from times_ok[OF n e] obtain n' e' where
    m: "float_times (Finite False n e) 100 = Finite False n' e'" and n': "0 \<le> n'" and e': "e' \<le> 0"
    and me: "\<bar>real_of_int n' / 2 ^ nat (- e') - 100 * (real_of_int n / 2 ^ nat (- e))\<bar> \<le> 1 / 2 ^ 47"
    by blast
  from format_ok[OF n' e'] obtain t where
    f: "format_1f (Finite False n' e') = decimal (t div 10) @ ''.'' @ decimal (t mod 10)"
    and fe: "\<bar>real t / 10 - real_of_int n' / 2 ^ nat (- e')\<bar> \<le> 1 / 20"
    by blast
  define x where "x = real_of_int n / 2 ^ nat (- e)"
  define y where "y = real_of_int n' / 2 ^ nat (- e')"
  define z where "z = real_of_int h / real_of_int tot"
  have "\<bar>x - z\<bar> \<le> 1 / 2 ^ 53" "\<bar>y - 100 * x\<bar> \<le> 1 / 2 ^ 47" "\<bar>real t / 10 - y\<bar> \<le> 1 / 20"
    using de me fe by (simp_all only: x_def y_def z_def)
  then have "\<bar>real t / 10 - 100 * z\<bar> \<le> 1 / 20 + 1 / 2 ^ 45"
    unfolding abs_le_iff by simp
  with d m f show ?thesis unfolding z_def by (intro exI[of _ "Finite False n e"] exI[of _ t]) simp
qed

subsection \<open>Hit and miss counters\<close>

lemma get_counts:
  "lru_hits (snd (LRUCache_get c key now)) =
     lru_hits c + (if fst (LRUCache_get c key now) = None then 0 else 1)"
  "lru_misses (snd (LRUCache_get c key now)) =
     lru_misses c + (if fst (LRUCache_get c key now) = None then 1 else 0)"
  "name (snd (LRUCache_get c key now)) = name c"
  by (simp_all add: LRUCache_get_def split: option.splits)

lemma step_counts:
  assumes "step c x = Inr (r, c')"
  shows "lru_hits c' = lru_hits c + (if is_hit r then 1 else 0)
       \<and> lru_misses c' = lru_misses c + (if is_miss r then 1 else 0)
       \<and> max_size c' = max_size c \<and> name c' = name c"
proof (cases x)
  case (Get key now)
  with assms have r: "r = Value (fst (LRUCache_get c key now))" and c': "c' = snd (LRUCache_get c key now)"
    by (auto simp: case_prod_unfold)
  show ?thesis
  proof (cases "fst (LRUCache_get c key now)")
    case None
    then show ?thesis using r c' get_counts[of c key now] get_max_size[of c key now] by simp
  next
    case (Some v)
    then show ?thesis using r c' get_counts[of c key now] get_max_size[of c key now] by simp
  qed
next
  case (Set key v t now)
  with assms show ?thesis
    by (auto simp: LRUCache_set_def split: option.splits)
next
  case (Delete key)
  with assms show ?thesis
    by (auto simp: LRUCache_delete_def split: if_splits)
next
  case Clear
  with assms show ?thesis
    by (auto simp: LRUCache_clear_def)
qed

lemma run_counts:
  "run c xs = Inr (rs, c') \<Longrightarrow>
   lru_hits c' = lru_hits c + int (length (filter is_hit rs))
   \<and> lru_misses c' = lru_misses c + int (length (filter is_miss rs))
   \<and> max_size c' = max_size c \<and> name c' = name c"
proof (induction xs arbitrary: c rs)
  case Nil
  then show ?case by simp
next
  case (Cons x xs)
  from Cons.prems obtain r c1 rs1 where
    s: "step c x = Inr (r, c1)" and t: "run c1 xs = Inr (rs1, c')" and rs: "rs = r # rs1"
    by (auto split: sum.splits prod.splits)
  from step_counts[OF s] Cons.IH[OF t] rs show ?case by simp
qed

text \<open>
  Claim C5, as amended. After any sequence of cache operations that runs to completion with
  \<open>h\<close> hits and \<open>ms\<close> misses among its \<^verbatim>\<open>get\<close> calls, \<^verbatim>\<open>stats\<close> returns normally and
  reports the name, the size, the capacity, \<open>h\<close> hits and \<open>ms\<close> misses. The hit rate it
  reports is a string: a decimal number with one digit after the point, followed by a percent
  sign. That number (\<open>t\<close> tenths) is \<open>0.0\<close> when there has been no access, and otherwise
  the percentage \<open>100 * h / (h + ms)\<close> rounded to one decimal: it differs from the exact
  percentage by at most \<open>0.05\<close>, plus the binary64 rounding error of the quotient and of the
  product, which is below \<open>2 ^ - 45\<close>.
\<close>

theorem stats_hit_rate_percent:
  assumes "run (LRUCache_init m d n) ops = Inr (rs, c)"
    and "h = length (filter is_hit rs)" and "ms = length (filter is_miss rs)"
  shows "\<exists>t. LRUCache_stats c =
               Inr \<lparr>st_name = n, st_size = LRUCache_size c, st_max_size = m,
                    st_hits = int h, st_misses = int ms,
                    st_hit_rate = decimal (t div 10) @ ''.'' @ decimal (t mod 10) @ ''%''\<rparr>
           \<and> (if h + ms = 0 then t = 0
                else \<bar>real t / 10 - 100 * (real h / real (h + ms))\<bar> \<le> 1 / 20 + 1 / 2 ^ 45)"
proof -
  from run_counts[OF assms(1)] assms(2,3)
  have c: "lru_hits c = int h" "lru_misses c = int ms" "max_size c = m" "name c = n"
    by (simp_all add: LRUCache_init_def)
  show ?thesis
  proof (cases "h + ms = 0")
    case True
    have "format_1f (Finite False 0 0) = decimal (0 div 10) @ ''.'' @ decimal (0 mod 10)"
      by (simp add: format_1f_def round_half_even_def)
    with True c show ?thesis
      by (intro exI[of _ 0]) (simp add: LRUCache_stats_def LRUCache_size_def)
  next
    case False
    then have pos: "0 < int h + int ms" by linarith
    from hit_rate_render[of "int h" "int h + int ms"] pos
    obtain q t where q: "int_true_div (int h) (int h + int ms) = Inr q"
      and f: "format_1f (float_times q 100) = decimal (t div 10) @ ''.'' @ decimal (t mod 10)"
      and b: "\<bar>real t / 10 - 100 * (real_of_int (int h) / real_of_int (int h + int ms))\<bar>
                \<le> 1 / 20 + 1 / 2 ^ 45"
      by auto
    from b have "\<bar>real t / 10 - 100 * (real h / real (h + ms))\<bar> \<le> 1 / 20 + 1 / 2 ^ 45"
      by simp
    with False c pos q f show ?thesis
      by (intro exI[of _ t]) (simp add: LRUCache_stats_def LRUCache_size_def)
  qed
qed

lemma decimal_digits: "decimal 0 = ''0''" "decimal 3 = ''3''" "decimal 5 = ''5''"
  "decimal 33 = ''33''" "decimal 50 = ''50''"
  by code_simp+

theorem stats_hit_rate_percent_witness:
  "run (LRUCache_init 2 300 ''cache'')
       [Set ''a'' (1::nat) None 0, Get ''a'' 1, Get ''b'' 2, Get ''c'' 3]
     = Inr ([Stored, Value (Some 1), Value None, Value None],
            \<lparr>max_size = 2, default_ttl = 300, name = ''cache'',
             lru_cache = [(''a'', \<lparr>entry_value = 1, created_at = 0, ttl = 300, hits = 1\<rparr>)],
             lru_hits = 1, lru_misses = 2\<rparr>)
   \<and> LRUCache_stats
        \<lparr>max_size = 2, default_ttl = 300, name = ''cache'',
         lru_cache = [(''a'', \<lparr>entry_value = 1::nat, created_at = 0, ttl = 300, hits = 1\<rparr>)],
         lru_hits = 1, lru_misses = 2\<rparr>
     = Inr \<lparr>st_name = ''cache'', st_size = 1, st_max_size = 2, st_hits = 1, st_misses = 2,
            st_hit_rate = ''33.3%''\<rparr>"
proof -
  let ?c = "\<lparr>max_size = 2, default_ttl = 300, name = ''cache'',
             lru_cache = [(''a'', \<lparr>entry_value = 1::nat, created_at = 0, ttl = 300, hits = 1\<rparr>)],
             lru_hits = 1, lru_misses = 2\<rparr>"
  have r: "run (LRUCache_init 2 300 ''cache'')
             [Set ''a'' (1::nat) None 0, Get ''a'' 1, Get ''b'' 2, Get ''c'' 3]
           = Inr ([Stored, Value (Some 1), Value None, Value None], ?c)"
    by (simp add: LRUCache_init_def LRUCache_set_def LRUCache_get_def ttl_or_default_def
        is_expired_def touch_def od_move_to_end_def od_delitem_def)
  from stats_hit_rate_percent[OF r refl refl]
  obtain t where s: "LRUCache_stats ?c =
               Inr \<lparr>st_name = ''cache'', st_size = LRUCache_size ?c, st_max_size = 2,
                    st_hits = 1, st_misses = 2,
                    st_hit_rate = decimal (t div 10) @ ''.'' @ decimal (t mod 10) @ ''%''\<rparr>"
    and b: "\<bar>real t / 10 - 100 * (1 / 3)\<bar> \<le> 1 / 20 + 1 / 2 ^ 45"
    by auto
  have "1 / 20 + 1 / 2 ^ 45 \<le> (6 / 100 :: real)" by simp
  with b have "\<bar>real t / 10 - 100 * (1 / 3)\<bar> \<le> 6 / 100" by (rule order_trans)
  then have "- (6 / 100) \<le> real t / 10 - 100 * (1 / 3)" "real t / 10 - 100 * (1 / 3) \<le> 6 / 100"
    unfolding abs_le_iff by linarith+
  then have "332 < real t" "real t < 334" by linarith+
  then have "332 < t" "t < 334" by linarith+
  then have t: "t = 333" by simp
  have "decimal (333 div 10) @ ''.'' @ decimal (333 mod 10) @ ''%'' = ''33.3%''"
    by (simp add: decimal_digits)
  with s t r show ?thesis by (simp add: LRUCache_size_def)
qed

text \<open>
  Claim C5 as stated fails: after one hit and one miss the reported hit rate is the string
  \<^verbatim>\<open>50.0%\<close>, a percentage, and not the ratio \<open>1 / (1 + 1)\<close>.
\<close>

theorem stats_hit_rate_counterexample:
  "run (LRUCache_init 2 300 ''cache'') [Set ''a'' (1::nat) None 0, Get ''a'' 1, Get ''b'' 2]
     = Inr ([Stored, Value (Some 1), Value None],
            \<lparr>max_size = 2, default_ttl = 300, name = ''cache'',
             lru_cache = [(''a'', \<lparr>entry_value = 1, created_at = 0, ttl = 300, hits = 1\<rparr>)],
             lru_hits = 1, lru_misses = 1\<rparr>)
   \<and> LRUCache_stats
        \<lparr>max_size = 2, default_ttl = 300, name = ''cache'',
         lru_cache = [(''a'', \<lparr>entry_value = 1::nat, created_at = 0, ttl = 300, hits = 1\<rparr>)],
         lru_hits = 1, lru_misses = 1\<rparr>
     = Inr \<lparr>st_name = ''cache'', st_size = 1, st_max_size = 2, st_hits = 1, st_misses = 1,
            st_hit_rate = ''50.0%''\<rparr>"
proof -
  have "int_true_div 1 2 = Inr (Finite False 4503599627370496 (- 53))"
    by code_simp
  moreover have "float_times (Finite False 4503599627370496 (- 53)) 100
                 = Finite False 7036874417766400 (- 47)"
    by code_simp
  moreover have "format_1f (Finite False 7036874417766400 (- 47)) = ''50.0''"
    by code_simp
  ultimately have "LRUCache_stats
        \<lparr>max_size = 2, default_ttl = 300, name = ''cache'',
         lru_cache = [(''a'', \<lparr>entry_value = 1::nat, created_at = 0, ttl = 300, hits = 1\<rparr>)],
         lru_hits = 1, lru_misses = 1\<rparr>
     = Inr \<lparr>st_name = ''cache'', st_size = 1, st_max_size = 2, st_hits = 1, st_misses = 1,
            st_hit_rate = ''50.0%''\<rparr>"
    by (simp add: LRUCache_stats_def)
  moreover have "run (LRUCache_init 2 300 ''cache'') [Set ''a'' (1::nat) None 0, Get ''a'' 1, Get ''b'' 2]
     = Inr ([Stored, Value (Some 1), Value None],
            \<lparr>max_size = 2, default_ttl = 300, name = ''cache'',
             lru_cache = [(''a'', \<lparr>entry_value = 1, created_at = 0, ttl = 300, hits = 1\<rparr>)],
             lru_hits = 1, lru_misses = 1\<rparr>)"
    by (simp add: LRUCache_init_def LRUCache_set_def LRUCache_get_def ttl_or_default_def
        is_expired_def touch_def od_move_to_end_def od_delitem_def)
  ultimately show ?thesis by simp
qed

subsection \<open>Eviction order\<close>

lemma evict_oldest_below: "int (length d) < m \<Longrightarrow> evict_oldest m d = Some d"
  by (cases d) auto

lemma evict_oldest_within:
  "0 < m \<Longrightarrow> int (length d) \<le> m \<Longrightarrow>
   evict_oldest m d = Some (if int (length d) = m then tl d else d)"
  by (cases d) (auto simp: evict_oldest_below)


lemma map_of_od_setitem: "map_of (od_setitem k v d) k = Some v"
  by (induction d) auto








subsection \<open>Overwriting a key, and the TTL of zero\<close>

lemma set_below_capacity:
  assumes "LRUCache_size c < max_size c"
  shows "LRUCache_set c key v t now =
           Inr (c\<lparr>lru_cache :=
                   od_setitem key \<lparr>entry_value = v, created_at = now,
                                   ttl = ttl_or_default t (default_ttl c), hits = 0\<rparr>
                     (lru_cache c)\<rparr>)"
  using assms by (simp add: LRUCache_set_def LRUCache_size_def evict_oldest_below)

lemma set_at_capacity:
  assumes "0 < max_size c" and "LRUCache_size c = max_size c"
  shows "LRUCache_set c key v t now =
           Inr (c\<lparr>lru_cache :=
                   od_setitem key \<lparr>entry_value = v, created_at = now,
                                   ttl = ttl_or_default t (default_ttl c), hits = 0\<rparr>
                     (tl (lru_cache c))\<rparr>)"
proof -
  have "int (length (lru_cache c)) \<le> max_size c"
    using assms(2) by (simp add: LRUCache_size_def)
  from evict_oldest_within[OF assms(1) this] assms(2)
  show ?thesis by (simp add: LRUCache_set_def LRUCache_size_def)
qed

text \<open>
  Claim C1 fails on the code. With capacity 2 and the keys \<open>a\<close>, \<open>b\<close> cached, overwriting
  \<open>b\<close> evicts \<open>a\<close> and the size drops to 1: the eviction loop runs whenever the cache is
  full, whether the key is new or not. With capacity 3 and the same two keys, overwriting
  \<open>a\<close> leaves \<open>a\<close> at the least-recently-used position: assigning to a present key of an
  \<^verbatim>\<open>OrderedDict\<close> does not move it. (In general, by the two lemmas above, \<^verbatim>\<open>set\<close> on a full
  cache removes the first entry whatever the key is, and below the capacity it is the bare
  dictionary assignment.)
\<close>

theorem set_existing_key_evicts:
  "run (LRUCache_init 2 300 ''cache'')
       [Set ''a'' (1::nat) None 0, Set ''b'' 2 None 1, Set ''b'' 3 None 2]
     = Inr ([Stored, Stored, Stored],
            \<lparr>max_size = 2, default_ttl = 300, name = ''cache'',
             lru_cache = [(''b'', \<lparr>entry_value = 3, created_at = 2, ttl = 300, hits = 0\<rparr>)],
             lru_hits = 0, lru_misses = 0\<rparr>)
   \<and> run (LRUCache_init 3 300 ''cache'')
       [Set ''a'' (1::nat) None 0, Set ''b'' 2 None 1, Set ''a'' 3 None 2]
     = Inr ([Stored, Stored, Stored],
            \<lparr>max_size = 3, default_ttl = 300, name = ''cache'',
             lru_cache = [(''a'', \<lparr>entry_value = 3, created_at = 2, ttl = 300, hits = 0\<rparr>),
                          (''b'', \<lparr>entry_value = 2, created_at = 1, ttl = 300, hits = 0\<rparr>)],
             lru_hits = 0, lru_misses = 0\<rparr>)"
  by (simp add: LRUCache_init_def LRUCache_set_def ttl_or_default_def)

text \<open>
  Claim C4 fails on the code. \<^verbatim>\<open>set(key, value, ttl=0)\<close> stores the entry with the default
  TTL, since \<^verbatim>\<open>ttl or self.default_ttl\<close> takes the zero for a missing argument; a
  \<^verbatim>\<open>get\<close> one second later is a hit.
\<close>

theorem ttl_zero_is_cached:
  "run (LRUCache_init 100 300 ''cache'') [Set ''k'' (7::nat) (Some 0) 0, Get ''k'' 1]
     = Inr ([Stored, Value (Some 7)],
            \<lparr>max_size = 100, default_ttl = 300, name = ''cache'',
             lru_cache = [(''k'', \<lparr>entry_value = 7, created_at = 0, ttl = 300, hits = 1\<rparr>)],
             lru_hits = 1, lru_misses = 0\<rparr>)"
  by (simp add: LRUCache_init_def LRUCache_set_def LRUCache_get_def ttl_or_default_def
      is_expired_def touch_def od_move_to_end_def od_delitem_def)

section \<open>Properties of the keyed response cache\<close>

lemma set_then_lookup:
  assumes "0 < max_size c"
  shows "\<exists>c'. LRUCache_set c key v t now = Inr c' \<and> max_size c' = max_size c
            \<and> map_of (lru_cache c') key
                = Some \<lparr>entry_value = v, created_at = now,
                        ttl = ttl_or_default t (default_ttl c), hits = 0\<rparr>"
proof -
  from evict_oldest_Some[OF assms, of "lru_cache c"]
  obtain d' where "evict_oldest (max_size c) (lru_cache c) = Some d'" by blast
  then show ?thesis by (simp add: LRUCache_set_def map_of_od_setitem)
qed

lemma get_fresh_entry:
  assumes "map_of (lru_cache c) key = Some e" and "\<not> is_expired e now"
  shows "fst (LRUCache_get c key now) = Some (entry_value e)"
  using assms by (simp add: LRUCache_get_def)

text \<open>
  Claim C10. On a keyed response cache with a positive capacity, \<^verbatim>\<open>set_vacancy_analysis\<close>
  returns normally, and a \<^verbatim>\<open>get_vacancy_analysis\<close> for the same text and model that follows
  it directly returns the stored result, when the clock has not advanced between the two
  (and more generally when it has advanced by at most the vacancy TTL of one hour).
\<close>

theorem vacancy_analysis_roundtrip:
  assumes "0 < max_size (ai_cache a)" and "now' - now \<le> TTL_VACANCY_ANALYSIS"
  shows "\<exists>a'. set_vacancy_analysis md5 a vacancy_text model res now = Inr a'
            \<and> fst (get_vacancy_analysis md5 a' vacancy_text model now') = Some res"
proof -
  let ?key = "make_key md5 vacancy_text model"
  let ?e = "\<lparr>entry_value = res, created_at = now,
             ttl = ttl_or_default (Some TTL_VACANCY_ANALYSIS) (default_ttl (ai_cache a)), hits = 0\<rparr>"
  from set_then_lookup[OF assms(1), of ?key res "Some TTL_VACANCY_ANALYSIS" now]
  obtain c' where s: "LRUCache_set (ai_cache a) ?key res (Some TTL_VACANCY_ANALYSIS) now = Inr c'"
    and l: "map_of (lru_cache c') ?key = Some ?e"
    by blast
  have "\<not> is_expired ?e now'"
    using assms(2) by (simp add: is_expired_def ttl_or_default_def TTL_VACANCY_ANALYSIS_def)
  from get_fresh_entry[OF l this]
  have "fst (LRUCache_get c' ?key now') = Some res" by simp
  then have "fst (get_vacancy_analysis md5 (a\<lparr>ai_cache := c'\<rparr>) vacancy_text model now') = Some res"
    by (simp add: get_vacancy_analysis_def case_prod_unfold)
  moreover have "set_vacancy_analysis md5 a vacancy_text model res now = Inr (a\<lparr>ai_cache := c'\<rparr>)"
    using s by (simp add: set_vacancy_analysis_def)
  ultimately show ?thesis by blast
qed

theorem vacancy_analysis_roundtrip_witness:
  "0 < max_size (ai_cache (AIResponseCache_init 200 :: nat AIResponseCache))
   \<and> (10::real) - 10 \<le> TTL_VACANCY_ANALYSIS
   \<and> (\<exists>a'. set_vacancy_analysis (\<lambda>s. s) (AIResponseCache_init 200) ''python developer'' ''mistral''
               (42::nat) 10 = Inr a'
          \<and> fst (get_vacancy_analysis (\<lambda>s. s) a' ''python developer'' ''mistral'' 10) = Some 42)"
proof -
  have h: "0 < max_size (ai_cache (AIResponseCache_init 200 :: nat AIResponseCache))"
    "(10::real) - 10 \<le> TTL_VACANCY_ANALYSIS"
    by (simp_all add: AIResponseCache_init_def LRUCache_init_def TTL_VACANCY_ANALYSIS_def)
  from vacancy_analysis_roundtrip[OF h, of "\<lambda>s. s" "''python developer''" "''mistral''" 42]
  show ?thesis using h by blast
qed

lemma recruiter_prompt_prefix:
  "500 \<le> length vacancy_text \<Longrightarrow>
   take 500 (take 500 vacancy_text @ ''|'' @ take 500 resume_text) = take 500 vacancy_text"
  by simp

lemma recruiter_key_ignores_resume:
  assumes "500 \<le> length vacancy_text"
  shows "make_key md5 (take 500 vacancy_text @ ''|'' @ take 500 resume1) model
       = make_key md5 (take 500 vacancy_text @ ''|'' @ take 500 resume2) model"
  using assms by (simp add: make_key_def)

text \<open>
  Claim C3 fails on the code. The combined prompt \<^verbatim>\<open>vacancy[:500] + "|" + resume[:500]\<close> is
  truncated to 500 characters once more by \<^verbatim>\<open>_make_key\<close>: with a vacancy text of 500
  characters nothing of the resume reaches the digest, so, whatever the digest function is,
  the analysis stored for one resume is returned for a resume that differs from it in its
  first character.
\<close>

theorem recruiter_key_collision:
  "\<exists>a'. set_recruiter_analysis md5 (AIResponseCache_init 200) (replicate 500 (CHR ''x''))
           ''alice'' ''mistral'' res 0 = Inr a'
       \<and> fst (get_recruiter_analysis md5 a' (replicate 500 (CHR ''x'')) ''bob'' ''mistral'' 1)
           = Some res"
proof -
  let ?v = "replicate 500 (CHR ''x'')"
  have k: "make_key md5 (take 500 ?v @ ''|'' @ take 500 ''alice'') ''mistral''
         = make_key md5 (take 500 ?v @ ''|'' @ take 500 ''bob'') ''mistral''"
    by (rule recruiter_key_ignores_resume) simp
  let ?key = "make_key md5 (take 500 ?v @ ''|'' @ take 500 ''bob'') ''mistral''"
  let ?c = "ai_cache (AIResponseCache_init 200 :: 'a AIResponseCache)"
  let ?e = "\<lparr>entry_value = res, created_at = 0,
             ttl = ttl_or_default (Some TTL_RECRUITER_ANALYSIS) (default_ttl ?c), hits = 0\<rparr>"
  have "0 < max_size ?c" by (simp add: AIResponseCache_init_def LRUCache_init_def)
  from set_then_lookup[OF this, of ?key res "Some TTL_RECRUITER_ANALYSIS" 0]
  obtain c' where s: "LRUCache_set ?c ?key res (Some TTL_RECRUITER_ANALYSIS) 0 = Inr c'"
    and l: "map_of (lru_cache c') ?key = Some ?e"
    by blast
  have "\<not> is_expired ?e 1"
    by (simp add: is_expired_def ttl_or_default_def TTL_RECRUITER_ANALYSIS_def)
  from get_fresh_entry[OF l this]
  have "fst (LRUCache_get c' ?key 1) = Some res" by simp
  then have "fst (get_recruiter_analysis md5 ((AIResponseCache_init 200)\<lparr>ai_cache := c'\<rparr>) ?v ''bob'' ''mistral'' 1) = Some res"
    by (simp add: get_recruiter_analysis_def case_prod_unfold Let_def del: take_replicate)
  moreover have "set_recruiter_analysis md5 (AIResponseCache_init 200) ?v ''alice'' ''mistral'' res 0
          = Inr ((AIResponseCache_init 200)\<lparr>ai_cache := c'\<rparr>)"
    using s unfolding set_recruiter_analysis_def Let_def k by simp
  ultimately show ?thesis by blast
qed

lemma map_of_od_delitem: "map_of (od_delitem k d) k = None"
  by (auto simp: od_delitem_def map_of_eq_None_iff)

lemma get_miss_absent:
  assumes "fst (LRUCache_get c key now) = None"
  shows "map_of (lru_cache (snd (LRUCache_get c key now))) key = None"
proof (cases "map_of (lru_cache c) key")
  case None
  then show ?thesis by (simp add: LRUCache_get_def)
next
  case (Some e)
  with assms have "is_expired e now"
    by (simp add: LRUCache_get_def split: if_splits)
  with Some show ?thesis by (simp add: LRUCache_get_def map_of_od_delitem)
qed

lemma get_absent_miss:
  assumes "map_of (lru_cache c) key = None"
  shows "LRUCache_get c key now = (None, c\<lparr>lru_misses := lru_misses c + 1\<rparr>)"
  using assms by (simp add: LRUCache_get_def)

lemma cached_ai_call_miss:
  assumes "LRUCache_get (ai_cache (get_ai_cache g)) key now1 = (None, c1)"
  shows "cached_ai_call g key t f now1 now2 =
          (case f of
             None \<Rightarrow> Inr (None, True, Some ((get_ai_cache g)\<lparr>ai_cache := c1\<rparr>))
           | Some r \<Rightarrow>
               (case LRUCache_set c1 key r (Some t) now2 of
                  Inl (e, c2) \<Rightarrow> Inl (e, Some ((get_ai_cache g)\<lparr>ai_cache := c2\<rparr>))
                | Inr c2 \<Rightarrow> Inr (Some r, True, Some ((get_ai_cache g)\<lparr>ai_cache := c2\<rparr>))))"
  using assms by (simp add: cached_ai_call_def Let_def)

lemma cached_ai_call_miss_returns:
  assumes "LRUCache_get (ai_cache (get_ai_cache g)) key now1 = (None, c1)"
    and "0 < max_size c1"
  shows "\<exists>g2. cached_ai_call g key t f now1 now2 = Inr (f, True, g2)"
proof (cases f)
  case None
  then show ?thesis using cached_ai_call_miss[OF assms(1)] by simp
next
  case (Some r)
  from set_then_lookup[OF assms(2), of key r "Some t" now2]
  obtain c2 where "LRUCache_set c1 key r (Some t) now2 = Inr c2" by blast
  then show ?thesis using Some cached_ai_call_miss[OF assms(1), of t f now2] by simp
qed

text \<open>
  What \<^verbatim>\<open>cached_ai_call\<close> does after a missed lookup, in a cache of positive capacity (the
  one that \<^verbatim>\<open>get_ai_cache\<close> creates has capacity 200). A \<^verbatim>\<open>None\<close> result is returned and
  not stored: the cache stays as the lookup left it, the key is absent, and a later call with
  the same key awaits the function again. Any other result is returned and stored under the
  key, with the given TTL unless that TTL is zero, in which case the entry gets the default
  TTL of the cache.
\<close>

lemma cached_ai_call_on_miss:
  assumes "0 < max_size (ai_cache (get_ai_cache g))"
    and "fst (LRUCache_get (ai_cache (get_ai_cache g)) key now1) = None"
    and "c1 = snd (LRUCache_get (ai_cache (get_ai_cache g)) key now1)"
    and "g1 = Some ((get_ai_cache g)\<lparr>ai_cache := c1\<rparr>)"
  shows "cached_ai_call g key t None now1 now2 = Inr (None, True, g1)"
    and "key \<notin> fst ` set (lru_cache c1)"
    and "\<exists>g2. cached_ai_call g1 key t' f now3 now4 = Inr (f, True, g2)"
    and "\<exists>c2. cached_ai_call g key t (Some v) now1 now2
                 = Inr (Some v, True, Some ((get_ai_cache g)\<lparr>ai_cache := c2\<rparr>))
             \<and> map_of (lru_cache c2) key
                 = Some \<lparr>entry_value = v, created_at = now2,
                         ttl = (if t = 0 then default_ttl c1 else t), hits = 0\<rparr>"
proof -
  have g: "LRUCache_get (ai_cache (get_ai_cache g)) key now1 = (None, c1)"
    using assms(2,3) by (simp add: prod_eq_iff)
  have ms: "max_size c1 = max_size (ai_cache (get_ai_cache g))"
    unfolding assms(3) by (rule get_max_size)
  with assms(1) have pos: "0 < max_size c1" by simp
  have absent: "map_of (lru_cache c1) key = None"
    unfolding assms(3) by (rule get_miss_absent[OF assms(2)])
  show "cached_ai_call g key t None now1 now2 = Inr (None, True, g1)"
    using cached_ai_call_miss[OF g, of t None now2] assms(4) by simp
  show "key \<notin> fst ` set (lru_cache c1)"
    using absent by (simp add: map_of_eq_None_iff)
  have g1: "get_ai_cache g1 = (get_ai_cache g)\<lparr>ai_cache := c1\<rparr>"
    using assms(4) by (simp add: get_ai_cache_def)
  have "LRUCache_get (ai_cache (get_ai_cache g1)) key now3 = (None, c1\<lparr>lru_misses := lru_misses c1 + 1\<rparr>)"
    using get_absent_miss[OF absent, of now3] g1 by simp
  from cached_ai_call_miss_returns[OF this, of t' f now4] pos
  show "\<exists>g2. cached_ai_call g1 key t' f now3 now4 = Inr (f, True, g2)" by simp
  from set_then_lookup[OF pos, of key v "Some t" now2]
  obtain c2 where s: "LRUCache_set c1 key v (Some t) now2 = Inr c2"
    and l: "map_of (lru_cache c2) key
              = Some \<lparr>entry_value = v, created_at = now2,
                      ttl = ttl_or_default (Some t) (default_ttl c1), hits = 0\<rparr>"
    by blast
  have "ttl_or_default (Some t) (default_ttl c1) = (if t = 0 then default_ttl c1 else t)"
    by (simp add: ttl_or_default_def)
  with l s cached_ai_call_miss[OF g, of t "Some v" now2]
  show "\<exists>c2. cached_ai_call g key t (Some v) now1 now2
                 = Inr (Some v, True, Some ((get_ai_cache g)\<lparr>ai_cache := c2\<rparr>))
             \<and> map_of (lru_cache c2) key
                 = Some \<lparr>entry_value = v, created_at = now2,
                         ttl = (if t = 0 then default_ttl c1 else t), hits = 0\<rparr>"
    by (intro exI[of _ c2]) simp
qed

text \<open>
  Claim C8 fails on the code in its last part, that a result other than \<^verbatim>\<open>None\<close> is stored
  with the given TTL. Called with the TTL \<open>0\<close>, \<^verbatim>\<open>cached_ai_call\<close> stores the result with
  the default TTL of 3600 seconds, since \<^verbatim>\<open>set\<close> evaluates \<^verbatim>\<open>ttl or self.default_ttl\<close>; a
  call with the same key half an hour later is answered from the cache and does not await
  the function. (The \<^verbatim>\<open>None\<close> part of the claim holds, by \<open>cached_ai_call_on_miss\<close>.)
\<close>

theorem cached_ai_call_ttl_zero_kept:
  "cached_ai_call (Some (AIResponseCache_init 200)) ''k'' 0 (Some (7::nat)) 0 1
     = Inr (Some 7, True,
            Some \<lparr>ai_cache = \<lparr>max_size = 200, default_ttl = 3600, name = ''ai_cache'',
                    lru_cache = [(''k'', \<lparr>entry_value = 7, created_at = 1, ttl = 3600, hits = 0\<rparr>)],
                    lru_hits = 0, lru_misses = 1\<rparr>\<rparr>)
   \<and> cached_ai_call
        (Some \<lparr>ai_cache = \<lparr>max_size = 200, default_ttl = 3600, name = ''ai_cache'',
                    lru_cache = [(''k'', \<lparr>entry_value = 7::nat, created_at = 1, ttl = 3600, hits = 0\<rparr>)],
                    lru_hits = 0, lru_misses = 1\<rparr>\<rparr>)
        ''k'' 0 (Some 8) 1800 1801
     = Inr (Some 7, False,
            Some \<lparr>ai_cache = \<lparr>max_size = 200, default_ttl = 3600, name = ''ai_cache'',
                    lru_cache = [(''k'', \<lparr>entry_value = 7, created_at = 1, ttl = 3600, hits = 1\<rparr>)],
                    lru_hits = 1, lru_misses = 1\<rparr>\<rparr>)"
  by (simp add: cached_ai_call_def get_ai_cache_def AIResponseCache_init_def LRUCache_init_def
      LRUCache_get_def LRUCache_set_def ttl_or_default_def TTL_VACANCY_ANALYSIS_def
      is_expired_def touch_def od_move_to_end_def od_delitem_def)

section \<open>Properties of the connection pool\<close>

lemma create_connections_room:
  "pool_size p \<le> 0 \<or> int (length (pool_queue p)) + int k \<le> pool_size p \<Longrightarrow>
   create_connections k p =
     Done () (p\<lparr>pool_queue := pool_queue p @ [opened p ..< opened p + k],
                connections := connections p @ [opened p ..< opened p + k],
                opened := opened p + k\<rparr>)"
proof (induction k arbitrary: p)
  case 0
  then show ?case by simp
next
  case (Suc k)
  let ?p1 = "p\<lparr>opened := opened p + 1, connections := connections p @ [opened p]\<rparr>"
  let ?p2 = "?p1\<lparr>pool_queue := pool_queue p @ [opened p]\<rparr>"
  have put: "queue_put ?p1 (opened p) = Done () ?p2"
    using Suc.prems by (auto simp: queue_put_def)
  have room: "pool_size ?p2 \<le> 0 \<or> int (length (pool_queue ?p2)) + int k \<le> pool_size ?p2"
    using Suc.prems by auto
  have upt: "opened p # [Suc (opened p) ..< Suc (opened p + k)] = [opened p ..< Suc (opened p + k)]"
    by (simp add: upt_conv_Cons)
  show ?case
    using Suc.IH[OF room] put upt by (simp add: Let_def)
qed

lemma initialize_when_locked:
  "\<not> initialized p \<Longrightarrow> lock_held p \<Longrightarrow> initialize p = Deadlock p"
  by simp

lemma acquire_enter_when_locked:
  "\<not> initialized p \<Longrightarrow> lock_held p \<Longrightarrow> acquire_enter p = Deadlock p"
  by (simp add: initialize_when_locked del: initialize.simps)

lemma initialize_when_initialized: "initialized p \<Longrightarrow> initialize p = Done () p"
  by simp

text \<open>
  Claim C2 fails on the code. The first \<^verbatim>\<open>initialize()\<close> on a new pool, of any size, never
  returns: it takes the lock, opens \<open>pool_size\<close> connections, and then enters
  \<^verbatim>\<open>self.acquire()\<close> for the schema. \<^verbatim>\<open>_initialized\<close> is still false at that point, so
  \<^verbatim>\<open>acquire\<close> calls \<^verbatim>\<open>initialize()\<close> again, which waits for the lock that the outer call
  holds. The pool is never marked ready.
\<close>

theorem initialize_deadlocks:
  "initialize (DatabasePool_init path n t) =
     Deadlock \<lparr>db_path = path, pool_size = n, timeout = t,
               pool_queue = [0 ..< nat n], connections = [0 ..< nat n],
               lock_held = True, initialized = False, opened = nat n\<rparr>"
proof -
  let ?p = "DatabasePool_init path n t"
  let ?p1 = "?p\<lparr>lock_held := True\<rparr>"
  let ?p2 = "?p1\<lparr>pool_queue := pool_queue ?p1 @ [opened ?p1 ..< opened ?p1 + nat n],
                  connections := connections ?p1 @ [opened ?p1 ..< opened ?p1 + nat n],
                  opened := opened ?p1 + nat n\<rparr>"
  have "pool_size ?p1 \<le> 0 \<or> int (length (pool_queue ?p1)) + int (nat n) \<le> pool_size ?p1"
    by (simp add: DatabasePool_init_def)
  from create_connections_room[OF this]
  have cr: "create_connections (nat (pool_size ?p1)) ?p1 = Done () ?p2"
    by (simp add: DatabasePool_init_def)
  have "\<not> initialized ?p2" "lock_held ?p2"
    by (simp_all add: DatabasePool_init_def)
  from acquire_enter_when_locked[OF this]
  have acq: "acquire_enter ?p2 = Deadlock ?p2" .
  have "initialize ?p = Deadlock ?p2"
    apply (subst initialize.simps)
    apply (simp only: Let_def cr acq outcome.case)
    apply (simp add: DatabasePool_init_def)
    done
  then show ?thesis by (simp add: DatabasePool_init_def)
qed

section \<open>Properties of the task registry\<close>

lemma fold_od_delitem: "fold od_delitem ks d = filter (\<lambda>p. fst p \<notin> set ks) d"
proof (induction ks arbitrary: d)
  case Nil
  then show ?case by simp
next
  case (Cons k ks)
  have "filter (\<lambda>p. fst p \<notin> set ks) (filter (\<lambda>p. fst p \<noteq> k) d)
        = filter (\<lambda>p. fst p \<notin> set (k # ks)) d"
    by (induction d) auto
  with Cons show ?case by (simp add: od_delitem_def)
qed

lemma filter_not_in_take:
  assumes "distinct xs"
  shows "filter (\<lambda>x. x \<notin> set (take k xs)) xs = drop k xs"
proof -
  have d: "distinct (take k xs @ drop k xs)" using assms by simp
  then have disj: "set (take k xs) \<inter> set (drop k xs) = {}"
    by (simp only: distinct_append)
  have "filter (\<lambda>x. x \<notin> set (take k xs)) (take k xs) = []"
    by (simp add: filter_empty_conv)
  moreover have "filter (\<lambda>x. x \<notin> set (take k xs)) (drop k xs) = drop k xs"
    using disj by (auto simp: filter_id_conv)
  ultimately have "filter (\<lambda>x. x \<notin> set (take k xs)) (take k xs @ drop k xs) = drop k xs"
    by (simp only: filter_append append_Nil)
  then show ?thesis by simp
qed

lemma finished_keys_are_finished:
  assumes "distinct (map fst tasks)" and "p \<in> set tasks"
    and "fst p \<in> set (map fst (filter (\<lambda>(vid, info). is_finished info) tasks))"
  shows "is_finished (snd p)"
proof -
  from assms(3) obtain q where q: "q \<in> set tasks" "is_finished (snd q)" "fst q = fst p"
    by (auto simp: case_prod_unfold)
  from assms(1) have "inj_on fst (set tasks)" by (simp add: distinct_map)
  with q(1,3) assms(2) have "q = p" by (auto dest: inj_onD)
  with q(2) show ?thesis by simp
qed

lemma set_slice_upto: "set (slice_upto stop xs) \<subseteq> set xs"
  by (auto simp: slice_upto_def dest: in_set_takeD)

lemma cleanup_keeps_unfinished:
  fixes tasks :: "('h, 'r) task_info ordered_dict"
  assumes "distinct (map fst tasks)"
  shows "filter (\<lambda>(vid, info). \<not> is_finished info) (cleanup_improvement_tasks tasks n)
           = filter (\<lambda>(vid, info). \<not> is_finished info) tasks"
proof -
  let ?completed = "map fst (filter (\<lambda>(vid, info). is_finished info) tasks)"
  let ?R = "slice_upto (- n) ?completed"
  have "filter (\<lambda>(vid, info). \<not> is_finished info) (filter (\<lambda>p. fst p \<notin> set ?R) tasks)
        = filter (\<lambda>(vid, info). \<not> is_finished info) tasks"
    unfolding filter_filter
  proof (rule filter_cong)
    fix p assume p: "p \<in> set tasks"
    have "fst p \<in> set ?R \<Longrightarrow> is_finished (snd p)"
      using finished_keys_are_finished[OF assms p] set_slice_upto[of "- n" ?completed] by blast
    then show "(fst p \<notin> set ?R \<and> (case p of (vid, info) \<Rightarrow> \<not> is_finished info))
             = (case p of (vid, info) \<Rightarrow> \<not> is_finished info)"
      by (auto simp: case_prod_unfold)
  qed simp
  then show ?thesis
    by (simp add: cleanup_improvement_tasks_def fold_od_delitem Let_def)
qed

lemma cleanup_keeps_most_recent:
  fixes tasks :: "('h, 'r) task_info ordered_dict"
  assumes "distinct (map fst tasks)" and "0 < n"
    and "completed = map fst (filter (\<lambda>(vid, info). is_finished info) tasks)"
    and "int (length completed) > n"
  shows "map fst (filter (\<lambda>(vid, info). is_finished info) (cleanup_improvement_tasks tasks n))
           = drop (length completed - nat n) completed"
    and "length (filter (\<lambda>(vid, info). is_finished info) (cleanup_improvement_tasks tasks n)) = nat n"
proof -
  let ?k = "length completed - nat n"
  let ?R = "take ?k completed"
  have "nat (int (length completed) - n) = ?k"
    using assms(2) by linarith
  then have sl: "slice_upto (- n) completed = ?R"
    using assms(2) by (simp add: slice_upto_def)
  have cl: "cleanup_improvement_tasks tasks n = filter (\<lambda>p. fst p \<notin> set ?R) tasks"
    using assms(3,4) sl by (simp add: cleanup_improvement_tasks_def fold_od_delitem Let_def)
  have dc: "distinct completed"
    unfolding assms(3) using assms(1) by (rule distinct_map_filter)
  have "map fst (filter (\<lambda>(vid, info). is_finished info) (filter (\<lambda>p. fst p \<notin> set ?R) tasks))
        = filter (\<lambda>x. x \<notin> set ?R) completed"
    unfolding assms(3) filter_map filter_filter
    by (rule arg_cong[where f="map fst"], rule filter_cong) (auto simp: comp_def)
  then show fin: "map fst (filter (\<lambda>(vid, info). is_finished info) (cleanup_improvement_tasks tasks n))
           = drop (length completed - nat n) completed"
    unfolding cl using filter_not_in_take[OF dc, of ?k] by simp
  show "length (filter (\<lambda>(vid, info). is_finished info) (cleanup_improvement_tasks tasks n)) = nat n"
    using arg_cong[OF fin, of length] assms(2,4) by simp
qed

text \<open>
  Claim C9 fails on the code for \<^verbatim>\<open>max_completed = 0\<close>. Two finished entries are more than
  zero, so the newest zero of them should be kept, that is, both removed; but
  \<^verbatim>\<open>completed[:-0]\<close> is the empty list, and nothing is removed. (No unfinished entry is
  ever removed, by \<open>cleanup_keeps_unfinished\<close>, and for \<open>n > 0\<close> exactly the newest \<open>n\<close>
  finished entries stay, by \<open>cleanup_keeps_most_recent\<close>.)
\<close>

theorem cleanup_keep_zero_removes_nothing:
  "cleanup_improvement_tasks
     [(''v1'', \<lparr>task = 1::nat, status = ''completed'', result = Some (10::nat)\<rparr>),
      (''v2'', \<lparr>task = 2, status = ''error'', result = None\<rparr>),
      (''v3'', \<lparr>task = 3, status = ''running'', result = None\<rparr>)] 0
   = [(''v1'', \<lparr>task = 1, status = ''completed'', result = Some 10\<rparr>),
      (''v2'', \<lparr>task = 2, status = ''error'', result = None\<rparr>),
      (''v3'', \<lparr>task = 3, status = ''running'', result = None\<rparr>)]"
  by (simp add: cleanup_improvement_tasks_def is_finished_def slice_upto_def)

lemma cleanup_keep_one_example:
  "cleanup_improvement_tasks
     [(''v1'', \<lparr>task = 1::nat, status = ''completed'', result = Some (10::nat)\<rparr>),
      (''v2'', \<lparr>task = 2, status = ''error'', result = None\<rparr>),
      (''v3'', \<lparr>task = 3, status = ''running'', result = None\<rparr>)] 1
   = [(''v2'', \<lparr>task = 2, status = ''error'', result = None\<rparr>),
      (''v3'', \<lparr>task = 3, status = ''running'', result = None\<rparr>)]"
  by (simp add: cleanup_improvement_tasks_def is_finished_def slice_upto_def od_delitem_def)

end
